theory Spec2Isabelle
  imports Complex_Main "HOL-Library.Sublist"
begin

section \<open>Strings\<close>

text \<open>
  A JavaScript string is modelled as a \<^typ>\<open>string\<close>: a list of code units, each in the
  8-bit range. The white space and the line terminators of that range are the ones
  \<open>String.prototype.trim\<close> and the regular-expression engine know.
\<close>

definition line_terminator :: "char \<Rightarrow> bool" where
  "line_terminator c = (c = CHR 0x0A \<or> c = CHR 0x0D)"

definition js_white :: "char \<Rightarrow> bool" where
  "js_white c = (c = CHR 0x09 \<or> c = CHR 0x0A \<or> c = CHR 0x0B \<or> c = CHR 0x0C \<or> c = CHR 0x0D
     \<or> c = CHR 0x20 \<or> c = CHR 0xA0)"

text \<open>\<open>s.trim()\<close>: white space removed from both ends.\<close>

definition trim :: "string \<Rightarrow> string" where
  "trim s = rev (dropWhile js_white (rev (dropWhile js_white s)))"

text \<open>
  Splitting at every character that satisfies \<open>P\<close>. The result is never empty: the
  empty string splits into one empty piece, as \<open>''''.split('\n')\<close> gives \<open>['''']\<close>.
\<close>

fun split_when :: "(char \<Rightarrow> bool) \<Rightarrow> string \<Rightarrow> string list" where
  "split_when P [] = [[]]"
| "split_when P (c # cs) =
     (if P c then [] # split_when P cs
      else (case split_when P cs of
              [] \<Rightarrow> [[c]]
            | l # ls \<Rightarrow> (c # l) # ls))"

text \<open>\<open>s.split('\n')\<close>.\<close>

definition split_nl :: "string \<Rightarrow> string list" where
  "split_nl s = split_when (\<lambda>c. c = CHR 0x0A) s"

text \<open>\<open>lines.join(sep)\<close>.\<close>

fun join_with :: "string \<Rightarrow> string list \<Rightarrow> string" where
  "join_with sep [] = []"
| "join_with sep [l] = l"
| "join_with sep (l # m # ls) = l @ sep @ join_with sep (m # ls)"

text \<open>
  \<open>s.replace(pat, '')\<close> with a string pattern: the first occurrence of \<open>pat\<close> in
  \<open>s\<close>, wherever it is, is removed; a string without it is returned as it is.
\<close>

fun replace_first :: "string \<Rightarrow> string \<Rightarrow> string" where
  "replace_first pat [] = []"
| "replace_first pat (c # cs) =
     (if prefix pat (c # cs) then drop (length pat) (c # cs)
      else c # replace_first pat cs)"

text \<open>\<open>s.substring(1)\<close>.\<close>

definition substring1 :: "string \<Rightarrow> string" where
  "substring1 s = drop 1 s"

section \<open>Errors and child processes\<close>

text \<open>
  The errors the program raises. \<open>CommandExit args code err\<close> is the \<open>Error\<close> that
  \<open>runPnpmCommand\<close> builds from the arguments, the exit code and (zip variant only) the
  trimmed error output; \<open>Thrown\<close> is an error object that comes from the runtime: the
  child's \<open>error\<close> event, a rejected file-system call.
\<close>

datatype error =
    CommandExit "string list" "int option" "string option"
  | Thrown string

text \<open>
  What a spawned child process emits, in the order the handlers see it. The exit code is
  \<open>number | null\<close>: \<open>None\<close> is \<open>null\<close> (ended by a signal).
\<close>

datatype child_event =
    Stdout string
  | Stderr string
  | StdoutEnd
  | Exit "int option"
  | Close "int option"
  | SpawnFailed string

text \<open>
  The promise executor of \<open>runPnpmCommand\<close>: two buffers and the promise's state. A promise
  settles once; a later \<open>resolve\<close> or \<open>reject\<close> changes nothing.
\<close>

record pnpm_run =
  output_acc :: string
  errorOutput :: string
  settled :: "(error + string) option"

definition settle :: "error + string \<Rightarrow> pnpm_run \<Rightarrow> pnpm_run" where
  "settle v r = (case settled r of None \<Rightarrow> r\<lparr>settled := Some v\<rparr> | Some _ \<Rightarrow> r)"

definition pnpm_start :: pnpm_run where
  "pnpm_start = \<lparr>output_acc = [], errorOutput = [], settled = None\<rparr>"

text \<open>The zip variant: \<open>stdout\<close>, \<open>stderr\<close>, \<open>exit\<close> and \<open>error\<close> have handlers.\<close>

fun pnpm_on :: "string list \<Rightarrow> child_event \<Rightarrow> pnpm_run \<Rightarrow> pnpm_run" where
  "pnpm_on args (Stdout d) r = r\<lparr>output_acc := output_acc r @ d\<rparr>"
| "pnpm_on args (Stderr d) r = r\<lparr>errorOutput := errorOutput r @ d\<rparr>"
| "pnpm_on args (Exit code) r =
     (if code \<noteq> Some 0 \<or> errorOutput r \<noteq> []
      then settle (Inl (CommandExit args code (Some (trim (errorOutput r))))) r
      else settle (Inr (trim (output_acc r))) r)"
| "pnpm_on args (SpawnFailed e) r = settle (Inl (Thrown e)) r"
| "pnpm_on args _ r = r"

text \<open>
  \<open>runPnpmCommand args\<close> on a child that emits \<open>evs\<close>: \<open>None\<close> while the promise is
  pending, \<open>Some (Inl e)\<close> rejected, \<open>Some (Inr out)\<close> resolved.
\<close>

definition runPnpmCommand :: "string list \<Rightarrow> child_event list \<Rightarrow> (error + string) option" where
  "runPnpmCommand args evs = settled (fold (pnpm_on args) evs pnpm_start)"

text \<open>
  What the handlers have been given by a list of events: the chunks of the two streams,
  put together. \<open>no_settle\<close> holds of the events that leave the promise pending.
\<close>

fun stdout_of :: "child_event list \<Rightarrow> string" where
  "stdout_of [] = []"
| "stdout_of (Stdout d # evs) = d @ stdout_of evs"
| "stdout_of (_ # evs) = stdout_of evs"

fun stderr_of :: "child_event list \<Rightarrow> string" where
  "stderr_of [] = []"
| "stderr_of (Stderr d # evs) = d @ stderr_of evs"
| "stderr_of (_ # evs) = stderr_of evs"

fun no_settle :: "child_event \<Rightarrow> bool" where
  "no_settle (Exit _) = False"
| "no_settle (SpawnFailed _) = False"
| "no_settle _ = True"

text \<open>The 7zip variant: only \<open>stdout\<close>, \<open>exit\<close> and \<open>error\<close> have handlers.\<close>

fun pnpm_on_7zip :: "string list \<Rightarrow> child_event \<Rightarrow> pnpm_run \<Rightarrow> pnpm_run" where
  "pnpm_on_7zip args (Stdout d) r = r\<lparr>output_acc := output_acc r @ d\<rparr>"
| "pnpm_on_7zip args (Exit code) r =
     (if code \<noteq> Some 0
      then settle (Inl (CommandExit args code None)) r
      else settle (Inr (trim (output_acc r))) r)"
| "pnpm_on_7zip args (SpawnFailed e) r = settle (Inl (Thrown e)) r"
| "pnpm_on_7zip args _ r = r"

definition runPnpmCommand_7zip ::
  "string list \<Rightarrow> child_event list \<Rightarrow> (error + string) option" where
  "runPnpmCommand_7zip args evs = settled (fold (pnpm_on_7zip args) evs pnpm_start)"

text \<open>
  The outside world, as one call sees it: what the file system answers and what a
  \<open>pnpm\<close> child started with the given arguments emits. \<open>path_join\<close> is Node's
  \<open>path.join\<close>, which depends on the platform and is taken as a parameter.
\<close>

record stats =
  isFile :: bool
  isDirectory :: bool

record world =
  fs_access :: "string \<Rightarrow> bool"
  fs_stat :: "string \<Rightarrow> error + stats"
  fs_readdir :: "string \<Rightarrow> error + string list"
  pnpm :: "string list \<Rightarrow> child_event list"
  path_join :: "string \<Rightarrow> string \<Rightarrow> string"

definition getRootPath :: "world \<Rightarrow> (error + string) option" where
  "getRootPath w = runPnpmCommand [''root''] (pnpm w [''root''])"

definition getRootPath_7zip :: "world \<Rightarrow> (error + string) option" where
  "getRootPath_7zip w = runPnpmCommand_7zip [''root''] (pnpm w [''root''])"

section \<open>The regular expression of the existence check\<close>

text \<open>
  \<open>projectExists\<close> builds \<open>new RegExp(`^${projectName}@`, 'm')\<close>: the project name is
  pattern source. The model reads the patterns made of the assertion \<open>^\<close>, the wildcard
  \<open>.\<close> and characters that stand for themselves; for a pattern with any other syntax
  character (the dollar sign, the backslash, \<open>* + ? ( ) [ ] { } |\<close>) it gives \<open>None\<close>: such patterns are outside the
  model.
\<close>

datatype rx_atom = RBol | RAny | RChar char

definition rx_other_syntax :: "char \<Rightarrow> bool" where
  "rx_other_syntax c = (c \<in> set (CHR 0x5C # ''$*+?()[]{}|''))"

fun rx_parse :: "string \<Rightarrow> rx_atom list option" where
  "rx_parse [] = Some []"
| "rx_parse (c # cs) =
     (if rx_other_syntax c then None
      else (case rx_parse cs of
              None \<Rightarrow> None
            | Some r \<Rightarrow>
                Some ((if c = CHR ''^'' then RBol else if c = CHR ''.'' then RAny else RChar c) # r)))"

text \<open>
  Matching at one position; \<open>prev\<close> is the character before the position, \<open>None\<close> at
  the start of the input. With the \<open>m\<close> flag \<open>^\<close> holds at the start of the input and
  after a line terminator; without the \<open>s\<close> flag \<open>.\<close> is any character but a line
  terminator.
\<close>

fun rx_here :: "rx_atom list \<Rightarrow> char option \<Rightarrow> string \<Rightarrow> bool" where
  "rx_here [] prev s = True"
| "rx_here (RBol # r) prev s =
     ((case prev of None \<Rightarrow> True | Some p \<Rightarrow> line_terminator p) \<and> rx_here r prev s)"
| "rx_here (RAny # r) prev [] = False"
| "rx_here (RAny # r) prev (c # s) = (\<not> line_terminator c \<and> rx_here r (Some c) s)"
| "rx_here (RChar a # r) prev [] = False"
| "rx_here (RChar a # r) prev (c # s) = (a = c \<and> rx_here r (Some c) s)"

text \<open>\<open>regex.test(s)\<close> without the \<open>g\<close> flag: a match at some position, tried from the left.\<close>

fun rx_search :: "rx_atom list \<Rightarrow> char option \<Rightarrow> string \<Rightarrow> bool" where
  "rx_search r prev [] = rx_here r prev []"
| "rx_search r prev (c # s) = (rx_here r prev (c # s) \<or> rx_search r (Some c) s)"

definition regex_test_m :: "string \<Rightarrow> string \<Rightarrow> bool option" where
  "regex_test_m pattern s = map_option (\<lambda>r. rx_search r None s) (rx_parse pattern)"

text \<open>
  \<open>projectExists\<close>, both variants alike but for their \<open>runPnpmCommand\<close>. The outer
  \<open>option\<close> is \<open>None\<close> for a pattern outside the model: there the model says nothing
  of the call (the source throws a \<open>SyntaxError\<close> for a pattern that is not well formed
  and matches by the pattern's meaning otherwise). Inside, the promise as above.
\<close>

definition projectExists :: "world \<Rightarrow> string \<Rightarrow> (error + bool) option option" where
  "projectExists w projectName =
     (let args = [''list'', ''--filter'', projectName] in
      case runPnpmCommand args (pnpm w args) of
        None \<Rightarrow> Some None
      | Some (Inl e) \<Rightarrow> Some (Some (Inl e))
      | Some (Inr out) \<Rightarrow>
          map_option (\<lambda>b. Some (Inr b)) (regex_test_m (''^'' @ projectName @ ''@'') out))"

text \<open>The lines of a text, as \<open>^\<close> sees them: the pieces between line terminators.\<close>

definition js_lines :: "string \<Rightarrow> string list" where
  "js_lines s = split_when line_terminator s"

section \<open>The dependency listing\<close>








section \<open>The entry mapper\<close>

text \<open>
  What one call of \<open>addToArchive\<close> can change: the entries handed to the archive writer
  (\<open>archive.file(path, {name})\<close>), the console, and a log of the calls made to the
  outside (kept for the proofs; the program has no such log).
\<close>

datatype notice =
    SkipNotice string
  | Processing string
  | AddError error
  | ArchiveWarning string

datatype call = Access string | Spawn "string list" | Stat string | Readdir string

record io =
  entries :: "(string \<times> string) list"
  console :: "notice list"
  calls :: "call list"

definition archive_file :: "string \<Rightarrow> string \<Rightarrow> io \<Rightarrow> io" where
  "archive_file src name s = s\<lparr>entries := entries s @ [(src, name)]\<rparr>"

definition called :: "call \<Rightarrow> io \<Rightarrow> io" where
  "called c s = s\<lparr>calls := calls s @ [c]\<rparr>"

definition say :: "notice \<Rightarrow> io \<Rightarrow> io" where
  "say n s = s\<lparr>console := console s @ [n]\<rparr>"

fun is_readdir :: "call \<Rightarrow> bool" where
  "is_readdir (Readdir _) = True"
| "is_readdir _ = False"

text \<open>\<open>absolutePath.replace(rootPath, '').substring(1)\<close>, the archive-relative name.\<close>

definition relativeOf :: "string \<Rightarrow> string \<Rightarrow> string" where
  "relativeOf rootPath absolutePath = substring1 (replace_first rootPath absolutePath)"

text \<open>
  \<open>addToArchive\<close> in the world \<open>w\<close>. \<open>None\<close>: the call never settles (its root query
  never does); \<open>Some (Inl e, s)\<close>: it rejects with \<open>e\<close>; \<open>Some (Inr (), s)\<close>: it
  resolves. \<open>s\<close> is what it has done by then.
\<close>

definition addToArchive ::
  "world \<Rightarrow> string \<Rightarrow> bool \<Rightarrow> io \<Rightarrow> ((error + unit) \<times> io) option" where
  "addToArchive w absolutePath verbose s0 =
     (let s1 = called (Access absolutePath) s0 in
      if \<not> fs_access w absolutePath then Some (Inr (), say (SkipNotice absolutePath) s1)
      else
        (let s2 = called (Spawn [''root'']) s1 in
         case getRootPath w of
           None \<Rightarrow> None
         | Some (Inl e) \<Rightarrow> Some (Inl e, s2)
         | Some (Inr rootPath) \<Rightarrow>
             (let relativePath = relativeOf rootPath absolutePath;
                  s3 = called (Stat absolutePath) s2
              in case fs_stat w absolutePath of
                   Inl e \<Rightarrow> Some (Inl e, s3)
                 | Inr st \<Rightarrow>
                     (let s4 = (if verbose then say (Processing absolutePath) s3 else s3) in
                      if isFile st then Some (Inr (), archive_file absolutePath relativePath s4)
                      else if isDirectory st then
                        (let s5 = called (Readdir absolutePath) s4 in
                         case fs_readdir w absolutePath of
                           Inl e \<Rightarrow> Some (Inl e, s5)
                         | Inr items \<Rightarrow>
                             Some (Inr (),
                               fold (\<lambda>item. archive_file (path_join w absolutePath item)
                                               (path_join w relativePath item)) items s5))
                      else Some (Inr (), s4)))))"

text \<open>
  The call as the pump makes it, \<open>addToArchive(...).catch(console.error)\<close>: a rejection
  becomes a line on the console, and the promise resolves.
\<close>

definition guarded_add :: "world \<Rightarrow> string \<Rightarrow> bool \<Rightarrow> io \<Rightarrow> io option" where
  "guarded_add w itemPath verbose s =
     (case addToArchive w itemPath verbose s of
        None \<Rightarrow> None
      | Some (Inl e, s') \<Rightarrow> Some (say (AddError e) s')
      | Some (Inr _, s') \<Rightarrow> Some s')"

section \<open>The archive job (zip variant)\<close>

text \<open>
  \<open>createArchive\<close> of the zip variant creates the stream, the archive and
  \<open>archivePromise\<close>, spawns the listing child, registers its handlers and returns: its body
  awaits nothing, so the promise it returns is resolved then. All the work is done by the
  handlers. The job is the state they share; \<open>pc\<close> says where the \<open>end\<close> handler is
  suspended:
  \<^item> \<open>Listing\<close>: it has not started, the child's output is being read;
  \<^item> \<open>Racing\<close>: in \<open>await Promise.race(runningPromises)\<close>, before the dispatch of the
    first of \<open>pending\<close>;
  \<^item> \<open>Draining\<close>: in \<open>await Promise.all(runningPromises)\<close>;
  \<^item> \<open>Flushing\<close>: \<open>archive.finalize()\<close> is called, in \<open>await archivePromise\<close>;
  \<^item> \<open>Finished\<close>, \<open>Rejected\<close>: the handler has returned, or thrown.
  An element of \<open>runningPromises\<close> is the number of the promise and its path. \<open>peak\<close> and
  \<open>suspensions\<close> observe the run: the largest size \<open>runningPromises\<close> has had, and how
  often the loop has waited at the ceiling.
\<close>

datatype pc = Listing | Racing | Draining | Flushing | Finished | Rejected

text \<open>
  A JavaScript \<open>number\<close>: a finite value, which is a rational, one of the two infinities,
  or \<open>NaN\<close>. \<open>size_ge n c\<close> is the test \<open>size >= c\<close> for a set's size \<open>n\<close>: every
  comparison with \<open>NaN\<close> is false.
\<close>

datatype number = Finite rat | Infinity | NegInfinity | NaN

definition size_ge :: "nat \<Rightarrow> number \<Rightarrow> bool" where
  "size_ge n c =
     (case c of
        Finite q \<Rightarrow> q \<le> of_nat n
      | Infinity \<Rightarrow> False
      | NegInfinity \<Rightarrow> True
      | NaN \<Rightarrow> False)"

text \<open>
  The arguments of \<open>createArchive\<close>. \<open>concurrency\<close> is the number option of the command
  line as it was parsed: nothing in the code makes it an integer or keeps it positive.
\<close>

record config =
  projectName :: string
  output_path :: string
  concurrency :: number
  verbose :: bool

record job =
  returned :: bool
  firstLine :: bool
  allPaths :: "string list"
  pc :: pc
  pending :: "string list"
  runningPromises :: "(nat \<times> string) list"
  dispatched :: nat
  io :: io
  finalized :: bool
  archivePromise :: "(error + unit) option"
  peak :: nat
  suspensions :: nat

definition createArchive :: "config \<Rightarrow> job" where
  "createArchive cfg =
     \<lparr>returned = True, firstLine = True, allPaths = [], pc = Listing, pending = [],
      runningPromises = [], dispatched = 0,
      io = \<lparr>entries = [], console = [], calls = []\<rparr>,
      finalized = False, archivePromise = None, peak = 0, suspensions = 0\<rparr>"

text \<open>The \<open>data\<close> handler of the child's output.\<close>

definition push_line :: "string \<Rightarrow> job \<Rightarrow> job" where
  "push_line line s =
     (if firstLine s then s\<lparr>firstLine := False\<rparr>
      else s\<lparr>allPaths := allPaths s @ [trim line]\<rparr>)"

definition on_data :: "string \<Rightarrow> job \<Rightarrow> job" where
  "on_data chunk s = fold push_line (split_nl chunk) s"

text \<open>
  The \<open>end\<close> handler. \<open>dispatch\<close> is the loop body after the test: the promise is created
  and added to the set. \<open>for_of\<close> runs the loop over the paths it has not reached, until it
  has to wait or the paths are exhausted.
\<close>

definition dispatch :: "string \<Rightarrow> job \<Rightarrow> job" where
  "dispatch itemPath s =
     (let running = runningPromises s @ [(dispatched s, itemPath)]
      in s\<lparr>runningPromises := running, dispatched := Suc (dispatched s),
            peak := max (peak s) (length running)\<rparr>)"

definition finalize :: "job \<Rightarrow> job" where
  "finalize s =
     (case archivePromise s of
        None \<Rightarrow> s\<lparr>finalized := True, pc := Flushing\<rparr>
      | Some (Inr _) \<Rightarrow> s\<lparr>finalized := True, pc := Finished\<rparr>
      | Some (Inl _) \<Rightarrow> s\<lparr>finalized := True, pc := Rejected\<rparr>)"

definition after_loop :: "job \<Rightarrow> job" where
  "after_loop s = (if runningPromises s = [] then finalize s else s\<lparr>pc := Draining\<rparr>)"

fun for_of :: "number \<Rightarrow> string list \<Rightarrow> job \<Rightarrow> job" where
  "for_of c [] s = after_loop (s\<lparr>pending := []\<rparr>)"
| "for_of c (itemPath # rest) s =
     (if size_ge (length (runningPromises s)) c
      then s\<lparr>pc := Racing, pending := itemPath # rest, suspensions := Suc (suspensions s)\<rparr>
      else for_of c rest (dispatch itemPath s))"

text \<open>
  After the race the loop goes on with the dispatch it was about to make; the size is not
  tested again.
\<close>

definition resume :: "number \<Rightarrow> job \<Rightarrow> job" where
  "resume c s =
     (case pending s of
        [] \<Rightarrow> s
      | itemPath # rest \<Rightarrow> for_of c rest (dispatch itemPath s))"

text \<open>
  Promise \<open>i\<close> settles, having run in the world \<open>w\<close>: what the call has done is in the
  job, and \<open>promise.then(() => runningPromises.delete(promise))\<close> has removed it from the
  set. That reaction was registered when the promise was made, before any \<open>Promise.race\<close>
  or \<open>Promise.all\<close> saw it, and the reactions of a promise run in the order they were
  registered: the promise that wins the race is out of the set before the \<open>end\<close> handler
  goes on. A call adds its entries in one piece, after its last \<open>await\<close>, so the event
  is the call's whole effect. A promise that is not in the set, or whose call cannot
  finish in \<open>w\<close>, does not settle: the event changes nothing.
\<close>

definition on_settled :: "config \<Rightarrow> nat \<Rightarrow> world \<Rightarrow> job \<Rightarrow> job" where
  "on_settled cfg i w s =
     (case map_of (runningPromises s) i of
        None \<Rightarrow> s
      | Some itemPath \<Rightarrow>
          (case guarded_add w itemPath (verbose cfg) (io s) of
             None \<Rightarrow> s
           | Some io' \<Rightarrow>
               let s' = s\<lparr>io := io', runningPromises := filter (\<lambda>p. fst p \<noteq> i) (runningPromises s)\<rparr>
               in if pc s = Racing then resume (concurrency cfg) s'
                  else if pc s = Draining \<and> runningPromises s' = [] then finalize s'
                  else s'))"

text \<open>\<open>archivePromise\<close> settles: the output stream's \<open>close\<close>, or the archive's \<open>error\<close>.\<close>

definition on_archive :: "error + unit \<Rightarrow> job \<Rightarrow> job" where
  "on_archive v s =
     (case archivePromise s of
        Some _ \<Rightarrow> s
      | None \<Rightarrow>
          let s' = s\<lparr>archivePromise := Some v\<rparr>
          in if pc s = Flushing
             then (case v of Inr _ \<Rightarrow> s'\<lparr>pc := Finished\<rparr> | Inl _ \<Rightarrow> s'\<lparr>pc := Rejected\<rparr>)
             else s')"

text \<open>
  The events of a run. Of the listing child only \<open>stdout\<close>'s \<open>data\<close> and \<open>end\<close> have
  handlers; its exit code and its error output are not read. A stream emits no \<open>data\<close>
  after its \<open>end\<close> and \<open>end\<close> once: such events change nothing.
\<close>

datatype event =
    Child child_event
  | Settled nat world
  | OutputClose
  | ArchiveError string
  | ArchiveWarn string

fun step :: "config \<Rightarrow> event \<Rightarrow> job \<Rightarrow> job" where
  "step cfg (Child (Stdout chunk)) s = (if pc s = Listing then on_data chunk s else s)"
| "step cfg (Child StdoutEnd) s =
     (if pc s = Listing then for_of (concurrency cfg) (allPaths s) s else s)"
| "step cfg (Child _) s = s"
| "step cfg (Settled i w) s = on_settled cfg i w s"
| "step cfg OutputClose s = on_archive (Inr ()) s"
| "step cfg (ArchiveError e) s = on_archive (Inl (Thrown e)) s"
| "step cfg (ArchiveWarn m) s = s\<lparr>io := say (ArchiveWarning m) (io s)\<rparr>"

definition run :: "config \<Rightarrow> event list \<Rightarrow> job" where
  "run cfg evs = fold (step cfg) evs (createArchive cfg)"

section \<open>The invariant of the job\<close>

text \<open>
  \<open>admits c B\<close>: under the ceiling \<open>c\<close> the loop dispatches without waiting only below
  \<open>B\<close> calls in flight. \<open>within_bounds c n k\<close>: a size \<open>n\<close> and a peak \<open>k\<close> are
  within every such \<open>B\<close>.
\<close>

definition admits :: "number \<Rightarrow> nat \<Rightarrow> bool" where
  "admits c B = (\<forall>n. \<not> size_ge n c \<longrightarrow> n < B)"

definition within_bounds :: "number \<Rightarrow> nat \<Rightarrow> nat \<Rightarrow> bool" where
  "within_bounds c n k = (\<forall>B. admits c B \<longrightarrow> n \<le> B \<and> k \<le> B)"

text \<open>
  What holds of the job after any events, for any ceiling \<open>c\<close>: the set and its peak are
  within the bounds; the paths are either dispatched or pending; the loop waits only
  before a dispatch and with the test of the ceiling true; it has waited only if the test
  is true of a size below the number of paths; the archive is finalized exactly when the
  handler is past the loop with nothing in flight; and the handler ends as
  \<open>archivePromise\<close> does.
\<close>

definition job_inv :: "number \<Rightarrow> job \<Rightarrow> bool" where
  "job_inv c s =
     (within_bounds c (length (runningPromises s)) (peak s)
      \<and> length (runningPromises s) \<le> dispatched s
      \<and> (pc s = Listing \<longrightarrow> runningPromises s = [] \<and> dispatched s = 0 \<and> suspensions s = 0)
      \<and> (pc s \<noteq> Listing \<longrightarrow> dispatched s + length (pending s) = length (allPaths s))
      \<and> (pc s = Racing \<longrightarrow> pending s \<noteq> [] \<and> size_ge (length (runningPromises s)) c)
      \<and> (pc s = Draining \<longrightarrow> pending s = [] \<and> runningPromises s \<noteq> [])
      \<and> (0 < suspensions s \<longrightarrow> (\<exists>n < length (allPaths s). size_ge n c))
      \<and> (finalized s = (pc s = Flushing \<or> pc s = Finished \<or> pc s = Rejected))
      \<and> (finalized s \<longrightarrow> runningPromises s = [] \<and> pending s = [])
      \<and> (pc s = Flushing \<longrightarrow> archivePromise s = None)
      \<and> (pc s = Finished \<longrightarrow> archivePromise s = Some (Inr ()))
      \<and> (pc s = Rejected \<longrightarrow> (\<exists>e. archivePromise s = Some (Inl e))))"

text \<open>What the loop needs when it reaches the paths \<open>ps\<close>.\<close>

definition loop_pre :: "number \<Rightarrow> string list \<Rightarrow> job \<Rightarrow> bool" where
  "loop_pre c ps s =
     (within_bounds c (length (runningPromises s)) (peak s)
      \<and> length (runningPromises s) \<le> dispatched s
      \<and> dispatched s + length ps = length (allPaths s)
      \<and> (0 < suspensions s \<longrightarrow> (\<exists>n < length (allPaths s). size_ge n c))
      \<and> \<not> finalized s)"


section \<open>Concrete inputs\<close>

text \<open>The worlds, configurations and outputs at which the theorems below are evaluated.\<close>

definition w_resolver :: world where
  "w_resolver =
     \<lparr>fs_access = (\<lambda>p. True),
      fs_stat = (\<lambda>p. Inl (Thrown ''ENOENT'')),
      fs_readdir = (\<lambda>p. Inl (Thrown ''ENOENT'')),
      pnpm = (\<lambda>args. if args = [''root''] then [Stdout ''/ws/node_modules\<newline>'', Exit (Some 0)]
                     else [Stdout ''app@1.0.0 /ws/app\<newline>'', Exit (Some 0)]),
      path_join = (\<lambda>a b. a @ ''/'' @ b)\<rparr>"

definition cfg_ex :: config where
  "cfg_ex = \<lparr>projectName = ''app'', output_path = ''out.zip'', concurrency = Finite 2, verbose = False\<rparr>"

definition w_dot :: world where
  "w_dot =
     \<lparr>fs_access = (\<lambda>p. True),
      fs_stat = (\<lambda>p. Inl (Thrown ''ENOENT'')),
      fs_readdir = (\<lambda>p. Inl (Thrown ''ENOENT'')),
      pnpm = (\<lambda>args. [Stdout ''Legend: production dependency\<newline>my-pkg@1.0.0 /ws/my-pkg\<newline>'', Exit (Some 0)]),
      path_join = (\<lambda>a b. a @ ''/'' @ b)\<rparr>"

definition w_fs :: world where
  "w_fs =
     \<lparr>fs_access = (\<lambda>p. p \<noteq> ''/ws/node_modules/gone''),
      fs_stat = (\<lambda>p. if p = ''/ws/node_modules/foo'' then Inr \<lparr>isFile = False, isDirectory = True\<rparr>
                     else if p = ''/ws/node_modules/locked'' then Inl (Thrown ''EACCES'')
                     else Inr \<lparr>isFile = True, isDirectory = False\<rparr>),
      fs_readdir = (\<lambda>p. Inr [''index.js'', ''lib'']),
      pnpm = (\<lambda>args. [Stdout ''/ws/node_modules\<newline>'', Exit (Some 0)]),
      path_join = (\<lambda>a b. a @ ''/'' @ b)\<rparr>"

definition w_moved :: world where
  "w_moved = w_fs\<lparr>pnpm := (\<lambda>args. [Stdout ''/ws\<newline>'', Exit (Some 0)])\<rparr>"

definition io_start :: io where
  "io_start = \<lparr>entries = [], console = [], calls = []\<rparr>"

definition listing_ex :: "event list" where
  "listing_ex =
     [Child (Stdout ''hdr\<newline>/ws/node_modules/a.js\<newline>/ws/node_modules/locked''),
      Child (Stdout ''/ws/node_modules/gone\<newline>/ws/node_modules/b.js''),
      Child StdoutEnd]"

definition cfg_wide :: config where
  "cfg_wide = cfg_ex\<lparr>concurrency := Finite 4\<rparr>"

definition cfg_serial :: config where
  "cfg_serial = cfg_ex\<lparr>concurrency := Finite 1\<rparr>"

definition cfg_frac :: config where
  "cfg_frac = cfg_ex\<lparr>concurrency := Finite (5 / 2)\<rparr>"

section \<open>The path resolver's queries\<close>

lemma pnpm_on_settled: "settled r = Some v \<Longrightarrow> settled (pnpm_on args e r) = Some v"
  by (cases e) (simp_all add: settle_def)

lemma fold_pnpm_on_settled:
  "settled r = Some v \<Longrightarrow> settled (fold (pnpm_on args) evs r) = Some v"
  by (induction evs arbitrary: r) (simp_all add: pnpm_on_settled)

lemma fold_pnpm_on_quiet:
  "list_all no_settle pre \<Longrightarrow>
   fold (pnpm_on args) pre r =
     r\<lparr>output_acc := output_acc r @ stdout_of pre, errorOutput := errorOutput r @ stderr_of pre\<rparr>"
proof (induction pre arbitrary: r)
  case Nil
  then show ?case by simp
next
  case (Cons e pre)
  then show ?case by (cases e) simp_all
qed

lemma runPnpmCommand_exit:
  assumes "list_all no_settle pre"
  shows "runPnpmCommand args (pre @ Exit code # post) =
     Some (if code \<noteq> Some 0 \<or> stderr_of pre \<noteq> []
           then Inl (CommandExit args code (Some (trim (stderr_of pre))))
           else Inr (trim (stdout_of pre)))"
proof -
  let ?r = "fold (pnpm_on args) pre pnpm_start"
  have r: "?r = pnpm_start\<lparr>output_acc := stdout_of pre, errorOutput := stderr_of pre\<rparr>"
    using fold_pnpm_on_quiet [OF assms, of args pnpm_start] by (simp add: pnpm_start_def)
  have "settled (pnpm_on args (Exit code) ?r) =
     Some (if code \<noteq> Some 0 \<or> stderr_of pre \<noteq> []
           then Inl (CommandExit args code (Some (trim (stderr_of pre))))
           else Inr (trim (stdout_of pre)))"
    unfolding r by (simp add: settle_def pnpm_start_def)
  then show ?thesis
    by (simp add: runPnpmCommand_def fold_pnpm_on_settled)
qed

lemma pnpm_on_7zip_settled: "settled r = Some v \<Longrightarrow> settled (pnpm_on_7zip args e r) = Some v"
  by (cases e) (simp_all add: settle_def)

lemma fold_pnpm_on_7zip_settled:
  "settled r = Some v \<Longrightarrow> settled (fold (pnpm_on_7zip args) evs r) = Some v"
  by (induction evs arbitrary: r) (simp_all add: pnpm_on_7zip_settled)

lemma fold_pnpm_on_7zip_quiet:
  "list_all no_settle pre \<Longrightarrow>
   fold (pnpm_on_7zip args) pre r = r\<lparr>output_acc := output_acc r @ stdout_of pre\<rparr>"
proof (induction pre arbitrary: r)
  case Nil
  then show ?case by simp
next
  case (Cons e pre)
  then show ?case by (cases e) simp_all
qed

lemma runPnpmCommand_7zip_exit:
  assumes "list_all no_settle pre"
  shows "runPnpmCommand_7zip args (pre @ Exit code # post) =
     Some (if code \<noteq> Some 0 then Inl (CommandExit args code None)
           else Inr (trim (stdout_of pre)))"
proof -
  let ?r = "fold (pnpm_on_7zip args) pre pnpm_start"
  have r: "?r = pnpm_start\<lparr>output_acc := stdout_of pre\<rparr>"
    using fold_pnpm_on_7zip_quiet [OF assms, of args pnpm_start] by (simp add: pnpm_start_def)
  have "settled (pnpm_on_7zip args (Exit code) ?r) =
     Some (if code \<noteq> Some 0 then Inl (CommandExit args code None)
           else Inr (trim (stdout_of pre)))"
    unfolding r by (simp add: settle_def pnpm_start_def)
  then show ?thesis
    by (simp add: runPnpmCommand_7zip_def fold_pnpm_on_7zip_settled)
qed

text \<open>
  C3, at three runs. The dependency listing of the zip variant is the child that
  \<open>createArchive\<close> spawns, and nothing reads its exit code or its error output: a listing
  that writes \<open>ERR\<close> to its error stream and exits with code 1 is parsed like any other,
  its path is dispatched and nothing fails. \<open>runPnpmCommand\<close> settles on the child's
  \<open>exit\<close>, not on the \<open>close\<close> of its streams: when the exit comes before the output,
  a root query that printed the root resolves with the empty string, and one that wrote to
  its error stream resolves as if it had not.
\<close>

theorem path_resolver_misses_failures:
  "pc (run cfg_ex [Child (Stdout ''hdr\<newline>/ws/a''), Child (Stderr ''ERR''),
                   Child (Exit (Some 1)), Child StdoutEnd]) = Draining
   \<and> runningPromises (run cfg_ex [Child (Stdout ''hdr\<newline>/ws/a''), Child (Stderr ''ERR''),
                   Child (Exit (Some 1)), Child StdoutEnd]) = [(0, ''/ws/a'')]
   \<and> runPnpmCommand [''root''] [Exit (Some 0), Stdout ''/ws/node_modules\<newline>''] = Some (Inr [])
   \<and> runPnpmCommand [''root''] [Stdout ''/ws'', Exit (Some 0), Stderr ''ERR''] = Some (Inr ''/ws'')"
  by (simp add: run_def createArchive_def cfg_ex_def on_data_def split_nl_def push_line_def
      trim_def js_white_def size_ge_def dispatch_def after_loop_def runPnpmCommand_def
      pnpm_start_def settle_def)

section \<open>The archive job: what the steps keep\<close>

lemma fold_push_line:
  "fold push_line ls s =
     s\<lparr>firstLine := firstLine s \<and> ls = [],
       allPaths := allPaths s @ map trim (if firstLine s then tl ls else ls)\<rparr>"
proof (induction ls arbitrary: s)
  case Nil
  then show ?case by simp
next
  case (Cons l ls)
  then show ?case by (simp add: push_line_def)
qed





lemma dispatch_fields:
  "allPaths (dispatch p s) = allPaths s" "io (dispatch p s) = io s"
  "runningPromises (dispatch p s) = runningPromises s @ [(dispatched s, p)]"
  "dispatched (dispatch p s) = Suc (dispatched s)"
  "peak (dispatch p s) = max (peak s) (Suc (length (runningPromises s)))"
  "suspensions (dispatch p s) = suspensions s"
  "pending (dispatch p s) = pending s" "returned (dispatch p s) = returned s"
  "archivePromise (dispatch p s) = archivePromise s" "finalized (dispatch p s) = finalized s"
  "pc (dispatch p s) = pc s"
  by (simp_all add: dispatch_def Let_def)












section \<open>The parsed listing\<close>







section \<open>The archive-relative name\<close>

lemma replace_first_prefix: "replace_first pat (pat @ rest) = rest"
proof (cases "pat @ rest")
  case Nil
  then show ?thesis by simp
next
  case (Cons a list)
  have p: "prefix pat (a # list)" by (metis Cons prefixI)
  have d: "drop (length pat) (a # list) = rest" by (metis Cons append_eq_conv_conj)
  have "replace_first pat (a # list) = rest" using p d by simp
  then show ?thesis using Cons by simp
qed

lemma split_when_free:
  "\<forall>c \<in> set l. \<not> P c \<Longrightarrow> split_when P l = [l]"
  by (induction l) simp_all

lemma split_when_append:
  "\<forall>c \<in> set l. \<not> P c \<Longrightarrow> P s \<Longrightarrow> split_when P (l @ s # rest) = l # split_when P rest"
  by (induction l) simp_all

lemma split_when_join:
  "segs \<noteq> [] \<Longrightarrow> \<forall>seg \<in> set segs. sep \<notin> set seg \<Longrightarrow>
   split_when (\<lambda>c. c = sep) (join_with [sep] segs) = segs"
proof (induction "[sep]" segs rule: join_with.induct)
  case 1
  then show ?case by simp
next
  case (2 l)
  then show ?case using split_when_free [of l "\<lambda>c. c = sep"] by auto
next
  case (3 l m ls)
  have "\<forall>c \<in> set l. \<not> c = sep" using 3 by auto
  then have "split_when (\<lambda>c. c = sep) (l @ sep # join_with [sep] (m # ls))
    = l # split_when (\<lambda>c. c = sep) (join_with [sep] (m # ls))"
    by (rule split_when_append) simp
  then show ?case using 3 by simp
qed

lemma join_with_not_sep_first:
  "segs \<noteq> [] \<Longrightarrow> \<forall>seg \<in> set segs. seg \<noteq> [] \<and> sep \<notin> set seg \<Longrightarrow>
   \<not> prefix [sep] (join_with [sep] segs)"
proof (induction "[sep]" segs rule: join_with.induct)
  case 1
  then show ?case by simp
next
  case (2 l)
  then show ?case by (cases l) auto
next
  case (3 l m ls)
  then show ?case by (cases l) auto
qed

text \<open>
  C9. Let \<open>absolutePath\<close> be a strict descendant of \<open>rootPath\<close>: the root, a
  separator, and one or more segments joined by separators, each segment non-empty, free of
  the separator and not \<open>..\<close>. Then \<open>absolutePath.replace(rootPath, '').substring(1)\<close>
  is exactly the joined segments: the root and the separator after it are stripped and
  nothing else; the result does not begin with a separator and none of its segments is
  \<open>..\<close>. The separator is any character (\<open>/\<close>, or the backslash of Windows).
\<close>

theorem relativeOf_descendant:
  assumes "segs \<noteq> []"
    and "\<forall>seg \<in> set segs. seg \<noteq> [] \<and> sep \<notin> set seg \<and> seg \<noteq> ''..''"
  shows "relativeOf rootPath (rootPath @ [sep] @ join_with [sep] segs) = join_with [sep] segs
     \<and> \<not> prefix [sep] (relativeOf rootPath (rootPath @ [sep] @ join_with [sep] segs))
     \<and> ''..'' \<notin> set (split_when (\<lambda>c. c = sep)
                        (relativeOf rootPath (rootPath @ [sep] @ join_with [sep] segs)))"
proof -
  have r: "relativeOf rootPath (rootPath @ [sep] @ join_with [sep] segs) = join_with [sep] segs"
    by (simp add: relativeOf_def replace_first_prefix substring1_def)
  have p: "\<not> prefix [sep] (join_with [sep] segs)"
    using assms by (intro join_with_not_sep_first) auto
  have s: "split_when (\<lambda>c. c = sep) (join_with [sep] segs) = segs"
    using assms by (intro split_when_join) auto
  have d: "''..'' \<notin> set segs" using assms(2) by auto
  show ?thesis using r p s d by simp
qed

theorem relativeOf_descendant_witness:
  "[''foo'', ''lib'', ''x.js''] \<noteq> []
   \<and> relativeOf ''/ws/node_modules'' ''/ws/node_modules/foo/lib/x.js'' = ''foo/lib/x.js''
   \<and> \<not> prefix ''/'' (relativeOf ''/ws/node_modules'' ''/ws/node_modules/foo/lib/x.js'')
   \<and> ''..'' \<notin> set (split_when (\<lambda>c. c = CHR ''/'') (relativeOf ''/ws/node_modules'' ''/ws/node_modules/foo/lib/x.js''))"
proof -
  have h1: "[''foo'', ''lib'', ''x.js''] \<noteq> []" by simp
  have h2: "\<forall>seg \<in> set [''foo'', ''lib'', ''x.js'']. seg \<noteq> [] \<and> CHR ''/'' \<notin> set seg \<and> seg \<noteq> ''..''"
    by simp
  show ?thesis
    using relativeOf_descendant [OF h1 h2, of "''/ws/node_modules''"] by simp
qed

section \<open>The existence check\<close>

lemma split_when_nonempty: "split_when P s \<noteq> []"
  by (induction s) (simp_all split: list.splits)

lemma split_when_Cons:
  "split_when P (c # cs) =
     (if P c then [] # split_when P cs
      else (c # hd (split_when P cs)) # tl (split_when P cs))"
  using split_when_nonempty [of P cs] by (simp split: list.splits)

lemma rx_parse_plain:
  "\<forall>c \<in> set t. \<not> rx_other_syntax c \<and> c \<noteq> CHR ''^'' \<and> c \<noteq> CHR ''.'' \<Longrightarrow>
   rx_parse t = Some (map RChar t)"
  by (induction t) simp_all

lemma rx_here_chars: "rx_here (map RChar t) prev s = prefix t s"
proof (induction t arbitrary: prev s)
  case Nil
  then show ?case by simp
next
  case (Cons a t)
  then show ?case by (cases s) auto
qed

lemma prefix_first_line:
  "\<forall>x \<in> set t. \<not> line_terminator x \<Longrightarrow>
   prefix t s = prefix t (hd (split_when line_terminator s))"
proof (induction s arbitrary: t)
  case Nil
  then show ?case by simp
next
  case (Cons c s)
  show ?case
  proof (cases t)
    case Nil
    then show ?thesis by simp
  next
    case (Cons a t')
    have t': "\<forall>x \<in> set t'. \<not> line_terminator x" and a: "\<not> line_terminator a"
      using Cons.prems Cons by simp_all
    show ?thesis
      using Cons.IH [OF t'] a Cons by (auto simp add: split_when_Cons simp del: split_when.simps)
  qed
qed

lemma rx_search_bol:
  assumes "\<forall>x \<in> set t. \<not> line_terminator x" and "t \<noteq> []"
  shows "rx_search (RBol # map RChar t) prev s =
     (((case prev of None \<Rightarrow> True | Some p \<Rightarrow> line_terminator p)
        \<and> prefix t (hd (split_when line_terminator s)))
      \<or> (\<exists>l \<in> set (tl (split_when line_terminator s)). prefix t l))"
proof (induction s arbitrary: prev)
  case Nil
  then show ?case by (simp add: rx_here_chars)
next
  case (Cons c s)
  let ?ls = "split_when line_terminator s"
  have ne: "?ls = hd ?ls # tl ?ls" using split_when_nonempty [of line_terminator s] by simp
  have ex: "(\<exists>l \<in> set ?ls. prefix t l) = (prefix t (hd ?ls) \<or> (\<exists>l \<in> set (tl ?ls). prefix t l))"
    by (subst ne) simp
  show ?case
  proof (cases "line_terminator c")
    case True
    have "\<not> prefix t (c # s)" using assms True by (cases t) auto
    moreover have "\<not> prefix t []" using assms(2) by simp
    ultimately show ?thesis
      using True Cons [of "Some c"] ex
      by (simp add: rx_here_chars split_when_Cons del: split_when.simps)
  next
    case False
    have "prefix t (c # s) = prefix t (c # hd ?ls)"
      using prefix_first_line [OF assms(1), of "c # s"] False
      by (simp add: split_when_Cons del: split_when.simps)
    then show ?thesis
      using False Cons [of "Some c"]
      by (simp add: rx_here_chars split_when_Cons del: split_when.simps)
  qed
qed

lemma regex_test_m_plain:
  assumes "\<forall>c \<in> set name. \<not> rx_other_syntax c \<and> c \<noteq> CHR ''^'' \<and> c \<noteq> CHR ''.'' \<and> \<not> line_terminator c"
  shows "regex_test_m (''^'' @ name @ ''@'') out
     = Some (\<exists>l \<in> set (js_lines out). prefix (name @ ''@'') l)"
proof -
  let ?t = "name @ ''@''"
  have pl: "\<forall>c \<in> set ?t. \<not> rx_other_syntax c \<and> c \<noteq> CHR ''^'' \<and> c \<noteq> CHR ''.''"
    using assms by (simp add: rx_other_syntax_def)
  have lt: "\<forall>x \<in> set ?t. \<not> line_terminator x"
    using assms by (simp add: line_terminator_def)
  have p: "rx_parse (''^'' @ ?t) = Some (RBol # map RChar ?t)"
    using rx_parse_plain [OF pl] by (simp add: rx_other_syntax_def)
  let ?ls = "split_when line_terminator out"
  have ne: "?ls = hd ?ls # tl ?ls" using split_when_nonempty [of line_terminator out] by simp
  have ex: "(\<exists>l \<in> set ?ls. prefix ?t l) = (prefix ?t (hd ?ls) \<or> (\<exists>l \<in> set (tl ?ls). prefix ?t l))"
    by (subst ne) simp
  have "rx_search (RBol # map RChar ?t) None out = (\<exists>l \<in> set ?ls. prefix ?t l)"
    using rx_search_bol [OF lt, of None out] ex by simp
  then show ?thesis using p by (simp add: regex_test_m_def js_lines_def)
qed

text \<open>
  C8, as stated, fails: the project name is interpolated into the pattern as it is, so
  its characters are pattern syntax. For the name \<open>my.pkg\<close> the check answers true on
  an output whose only package line begins with \<open>my-pkg@\<close>: the dot matches the hyphen,
  and no line begins with \<open>my.pkg@\<close>.
\<close>

theorem projectExists_plain_names_counterexample:
  "projectExists w_dot ''my.pkg'' = Some (Some (Inr True))
   \<and> runPnpmCommand [''list'', ''--filter'', ''my.pkg''] (pnpm w_dot [''list'', ''--filter'', ''my.pkg''])
       = Some (Inr ''Legend: production dependency\<newline>my-pkg@1.0.0 /ws/my-pkg'')
   \<and> \<not> (\<exists>l \<in> set (js_lines ''Legend: production dependency\<newline>my-pkg@1.0.0 /ws/my-pkg'').
           prefix ''my.pkg@'' l)"
  by (simp add: projectExists_def runPnpmCommand_def w_dot_def pnpm_start_def settle_def trim_def
      js_white_def regex_test_m_def rx_other_syntax_def js_lines_def line_terminator_def)

text \<open>
  C8, as amended. For a project name in which no character is regular-expression syntax
  and none is a line terminator, and a list query that resolved with \<open>out\<close>,
  \<open>projectExists\<close> returns true if and only if some line of \<open>out\<close> begins with the
  name followed by \<open>@\<close>.
\<close>

theorem projectExists_plain_names:
  assumes "\<forall>c \<in> set name.
             \<not> rx_other_syntax c \<and> c \<noteq> CHR ''^'' \<and> c \<noteq> CHR ''.'' \<and> \<not> line_terminator c"
    and "runPnpmCommand [''list'', ''--filter'', name]
           (pnpm w [''list'', ''--filter'', name]) = Some (Inr out)"
  shows "projectExists w name
     = Some (Some (Inr (\<exists>l \<in> set (js_lines out). prefix (name @ ''@'') l)))"
  using assms(2) regex_test_m_plain [OF assms(1), of out]
  by (simp add: projectExists_def)

theorem projectExists_plain_names_witness:
  "runPnpmCommand [''list'', ''--filter'', ''app''] (pnpm w_resolver [''list'', ''--filter'', ''app''])
     = Some (Inr ''app@1.0.0 /ws/app'')
   \<and> projectExists w_resolver ''app'' = Some (Some (Inr True))
   \<and> projectExists w_dot ''pkg'' = Some (Some (Inr False))"
proof -
  have c: "\<forall>c \<in> set ''app''. \<not> rx_other_syntax c \<and> c \<noteq> CHR ''^'' \<and> c \<noteq> CHR ''.'' \<and> \<not> line_terminator c"
    by (simp add: rx_other_syntax_def line_terminator_def)
  have r: "runPnpmCommand [''list'', ''--filter'', ''app''] (pnpm w_resolver [''list'', ''--filter'', ''app''])
     = Some (Inr ''app@1.0.0 /ws/app'')"
    by (simp add: runPnpmCommand_def w_resolver_def pnpm_start_def settle_def trim_def js_white_def)
  have c2: "\<forall>c \<in> set ''pkg''. \<not> rx_other_syntax c \<and> c \<noteq> CHR ''^'' \<and> c \<noteq> CHR ''.'' \<and> \<not> line_terminator c"
    by (simp add: rx_other_syntax_def line_terminator_def)
  have r2: "runPnpmCommand [''list'', ''--filter'', ''pkg''] (pnpm w_dot [''list'', ''--filter'', ''pkg''])
     = Some (Inr ''Legend: production dependency\<newline>my-pkg@1.0.0 /ws/my-pkg'')"
    by (simp add: runPnpmCommand_def w_dot_def pnpm_start_def settle_def trim_def js_white_def)
  show ?thesis
    using r projectExists_plain_names [OF c r] projectExists_plain_names [OF c2 r2]
    by (simp add: js_lines_def line_terminator_def)
qed

section \<open>The entry mapper's entries\<close>

lemma fold_archive_file:
  "fold (\<lambda>item. archive_file (f item) (g item)) items s =
     s\<lparr>entries := entries s @ map (\<lambda>item. (f item, g item)) items\<rparr>"
  by (induction items arbitrary: s) (simp_all add: archive_file_def)

lemma addToArchive_root_count:
  "addToArchive w p v s = Some (r, s') \<Longrightarrow>
   count_list (calls s') (Spawn [''root''])
     = count_list (calls s) (Spawn [''root'']) + (if fs_access w p then 1 else 0)"
  by (auto simp add: addToArchive_def Let_def called_def say_def archive_file_def fold_archive_file
      split: if_splits option.splits sum.splits)

lemma addToArchive_file:
  "fs_access w p \<Longrightarrow> getRootPath w = Some (Inr rootPath) \<Longrightarrow> fs_stat w p = Inr st \<Longrightarrow> isFile st \<Longrightarrow>
   \<exists>s'. addToArchive w p v s = Some (Inr (), s') \<and> entries s' = entries s @ [(p, relativeOf rootPath p)]"
  by (simp add: addToArchive_def Let_def called_def say_def archive_file_def)

lemma w_moved_fields:
  "fs_access w_moved = fs_access w_fs" "fs_stat w_moved = fs_stat w_fs"
  by (simp_all add: w_moved_def)

text \<open>
  C6. \<open>addToArchive\<close> on a path that \<open>access\<close> rejects resolves with no entry added
  and one skip notice on the console. On a path that exists, with the root query resolved
  to \<open>rootPath\<close> and \<open>stat\<close> answered: for a regular file it adds exactly the entry
  \<open>(p, relativeOf rootPath p)\<close> and reads no directory; for a directory it adds exactly one
  entry per name that \<open>readdir\<close> of the path returns, the child's path under the joined
  relative name, and the one directory it reads is the path itself.
\<close>

theorem addToArchive_entries:
  "(\<not> fs_access w p \<longrightarrow>
      addToArchive w p v s
        = Some (Inr (), s\<lparr>console := console s @ [SkipNotice p], calls := calls s @ [Access p]\<rparr>))
   \<and> (fs_access w p \<and> getRootPath w = Some (Inr rootPath) \<and> fs_stat w p = Inr st \<and> isFile st \<longrightarrow>
        (\<exists>s'. addToArchive w p v s = Some (Inr (), s')
           \<and> entries s' = entries s @ [(p, relativeOf rootPath p)]
           \<and> filter is_readdir (calls s') = filter is_readdir (calls s)))
   \<and> (fs_access w p \<and> getRootPath w = Some (Inr rootPath) \<and> fs_stat w p = Inr st \<and> \<not> isFile st
        \<and> isDirectory st \<and> fs_readdir w p = Inr items \<longrightarrow>
        (\<exists>s'. addToArchive w p v s = Some (Inr (), s')
           \<and> entries s' = entries s
                @ map (\<lambda>item. (path_join w p item, path_join w (relativeOf rootPath p) item)) items
           \<and> filter is_readdir (calls s') = filter is_readdir (calls s) @ [Readdir p]))"
  by (simp add: addToArchive_def Let_def called_def say_def archive_file_def fold_archive_file)

theorem addToArchive_entries_witness:
  "addToArchive w_fs ''/ws/node_modules/gone'' False io_start
     = Some (Inr (), \<lparr>entries = [], console = [SkipNotice ''/ws/node_modules/gone''],
                       calls = [Access ''/ws/node_modules/gone'']\<rparr>)
   \<and> (\<exists>s'. addToArchive w_fs ''/ws/node_modules/a.js'' False io_start = Some (Inr (), s')
         \<and> entries s' = [(''/ws/node_modules/a.js'', ''a.js'')])
   \<and> (\<exists>s'. addToArchive w_fs ''/ws/node_modules/foo'' False io_start = Some (Inr (), s')
         \<and> entries s' = [(''/ws/node_modules/foo/index.js'', ''foo/index.js''),
                          (''/ws/node_modules/foo/lib'', ''foo/lib'')]
         \<and> filter is_readdir (calls s') = [Readdir ''/ws/node_modules/foo''])"
proof -
  have g: "getRootPath w_fs = Some (Inr ''/ws/node_modules'')"
    by (simp add: getRootPath_def runPnpmCommand_def w_fs_def pnpm_start_def settle_def trim_def
        js_white_def)
  have r1: "relativeOf ''/ws/node_modules'' ''/ws/node_modules/a.js'' = ''a.js''"
    and r2: "relativeOf ''/ws/node_modules'' ''/ws/node_modules/foo'' = ''foo''"
    by (simp_all add: relativeOf_def substring1_def)
  have a1: "\<not> fs_access w_fs ''/ws/node_modules/gone''" by (simp add: w_fs_def)
  have a2: "fs_access w_fs ''/ws/node_modules/a.js'' \<and> getRootPath w_fs = Some (Inr ''/ws/node_modules'')
     \<and> fs_stat w_fs ''/ws/node_modules/a.js'' = Inr \<lparr>isFile = True, isDirectory = False\<rparr>
     \<and> isFile \<lparr>isFile = True, isDirectory = False\<rparr>"
    using g by (simp add: w_fs_def)
  have a3: "fs_access w_fs ''/ws/node_modules/foo'' \<and> getRootPath w_fs = Some (Inr ''/ws/node_modules'')
     \<and> fs_stat w_fs ''/ws/node_modules/foo'' = Inr \<lparr>isFile = False, isDirectory = True\<rparr>
     \<and> \<not> isFile \<lparr>isFile = False, isDirectory = True\<rparr> \<and> isDirectory \<lparr>isFile = False, isDirectory = True\<rparr>
     \<and> fs_readdir w_fs ''/ws/node_modules/foo'' = Inr [''index.js'', ''lib'']"
    using g by (simp add: w_fs_def)
  have j: "path_join w_fs = (\<lambda>a b. a @ ''/'' @ b)" by (simp add: w_fs_def)
  have t1: "addToArchive w_fs ''/ws/node_modules/gone'' False io_start
     = Some (Inr (), \<lparr>entries = [], console = [SkipNotice ''/ws/node_modules/gone''],
                       calls = [Access ''/ws/node_modules/gone'']\<rparr>)"
    using a1 addToArchive_entries [where w = w_fs and p = "''/ws/node_modules/gone''" and v = False and s = io_start]
    by (simp add: io_start_def)
  have t2: "\<exists>s'. addToArchive w_fs ''/ws/node_modules/a.js'' False io_start = Some (Inr (), s')
         \<and> entries s' = [(''/ws/node_modules/a.js'', ''a.js'')]"
    using a2 r1 addToArchive_entries [where w = w_fs and p = "''/ws/node_modules/a.js''"
        and rootPath = "''/ws/node_modules''" and st = "\<lparr>isFile = True, isDirectory = False\<rparr>"
        and v = False and s = io_start]
    by (auto simp add: io_start_def)
  have t3: "\<exists>s'. addToArchive w_fs ''/ws/node_modules/foo'' False io_start = Some (Inr (), s')
         \<and> entries s' = [(''/ws/node_modules/foo/index.js'', ''foo/index.js''),
                          (''/ws/node_modules/foo/lib'', ''foo/lib'')]
         \<and> filter is_readdir (calls s') = [Readdir ''/ws/node_modules/foo'']"
    using a3 r2 j addToArchive_entries [where w = w_fs and p = "''/ws/node_modules/foo''"
        and rootPath = "''/ws/node_modules''" and st = "\<lparr>isFile = False, isDirectory = True\<rparr>"
        and items = "[''index.js'', ''lib'']" and v = False and s = io_start]
    by (simp add: io_start_def)
  from t1 t2 t3 show ?thesis by blast
qed

text \<open>
  C10. Every call of \<open>addToArchive\<close> on a path that exists starts one \<open>pnpm root\<close>
  child of its own, and a call on a path that does not exist starts none: whatever the
  call's outcome, the number of root queries made has grown by exactly one, or by none.
  The call cannot finish without its query: while the query is pending the call is, and a
  query that fails fails the call. Nothing carries a root from one call to the next: two
  calls in a row name their entries each by the root its own query returned.
\<close>

theorem root_query_per_call:
  "(addToArchive w p v s = Some (r, s') \<longrightarrow>
      count_list (calls s') (Spawn [''root''])
        = count_list (calls s) (Spawn [''root'']) + (if fs_access w p then 1 else 0))
   \<and> (fs_access w p \<and> getRootPath w = None \<longrightarrow> addToArchive w p v s = None)
   \<and> (fs_access w p \<and> getRootPath w = Some (Inl e) \<longrightarrow>
        addToArchive w p v s = Some (Inl e, s\<lparr>calls := calls s @ [Access p, Spawn [''root'']]\<rparr>))
   \<and> (fs_access w1 p1 \<and> getRootPath w1 = Some (Inr root1) \<and> fs_stat w1 p1 = Inr st1 \<and> isFile st1
        \<and> fs_access w2 p2 \<and> getRootPath w2 = Some (Inr root2) \<and> fs_stat w2 p2 = Inr st2 \<and> isFile st2 \<longrightarrow>
        (\<exists>s1 s2. addToArchive w1 p1 v s = Some (Inr (), s1)
           \<and> addToArchive w2 p2 v s1 = Some (Inr (), s2)
           \<and> entries s2 = entries s @ [(p1, relativeOf root1 p1), (p2, relativeOf root2 p2)]))"
proof -
  have a: "addToArchive w p v s = Some (r, s') \<longrightarrow>
      count_list (calls s') (Spawn [''root''])
        = count_list (calls s) (Spawn [''root'']) + (if fs_access w p then 1 else 0)"
    using addToArchive_root_count by blast
  have b: "fs_access w p \<and> getRootPath w = None \<longrightarrow> addToArchive w p v s = None"
    by (simp add: addToArchive_def Let_def)
  have c: "fs_access w p \<and> getRootPath w = Some (Inl e) \<longrightarrow>
        addToArchive w p v s = Some (Inl e, s\<lparr>calls := calls s @ [Access p, Spawn [''root'']]\<rparr>)"
    by (simp add: addToArchive_def Let_def called_def)
  have d: "fs_access w1 p1 \<and> getRootPath w1 = Some (Inr root1) \<and> fs_stat w1 p1 = Inr st1 \<and> isFile st1
        \<and> fs_access w2 p2 \<and> getRootPath w2 = Some (Inr root2) \<and> fs_stat w2 p2 = Inr st2 \<and> isFile st2 \<longrightarrow>
        (\<exists>s1 s2. addToArchive w1 p1 v s = Some (Inr (), s1)
           \<and> addToArchive w2 p2 v s1 = Some (Inr (), s2)
           \<and> entries s2 = entries s @ [(p1, relativeOf root1 p1), (p2, relativeOf root2 p2)])"
  proof
    assume h: "fs_access w1 p1 \<and> getRootPath w1 = Some (Inr root1) \<and> fs_stat w1 p1 = Inr st1 \<and> isFile st1
        \<and> fs_access w2 p2 \<and> getRootPath w2 = Some (Inr root2) \<and> fs_stat w2 p2 = Inr st2 \<and> isFile st2"
    obtain s1 where s1: "addToArchive w1 p1 v s = Some (Inr (), s1)"
      "entries s1 = entries s @ [(p1, relativeOf root1 p1)]"
      using addToArchive_file [of w1 p1 root1 st1 v s] h by blast
    obtain s2 where s2: "addToArchive w2 p2 v s1 = Some (Inr (), s2)"
      "entries s2 = entries s1 @ [(p2, relativeOf root2 p2)]"
      using addToArchive_file [of w2 p2 root2 st2 v s1] h by blast
    show "\<exists>s1 s2. addToArchive w1 p1 v s = Some (Inr (), s1)
           \<and> addToArchive w2 p2 v s1 = Some (Inr (), s2)
           \<and> entries s2 = entries s @ [(p1, relativeOf root1 p1), (p2, relativeOf root2 p2)]"
      using s1 s2 by simp
  qed
  from a b c d show ?thesis by blast
qed

theorem root_query_per_call_witness:
  "(\<exists>s1 s2. addToArchive w_fs ''/ws/node_modules/a.js'' False io_start = Some (Inr (), s1)
      \<and> addToArchive w_moved ''/ws/node_modules/a.js'' False s1 = Some (Inr (), s2)
      \<and> entries s2 = [(''/ws/node_modules/a.js'', ''a.js''),
                       (''/ws/node_modules/a.js'', ''node_modules/a.js'')]
      \<and> count_list (calls s2) (Spawn [''root'']) = 2)"
proof -
  have g1: "getRootPath w_fs = Some (Inr ''/ws/node_modules'')"
    by (simp add: getRootPath_def runPnpmCommand_def w_fs_def pnpm_start_def settle_def trim_def
        js_white_def)
  have g2: "getRootPath w_moved = Some (Inr ''/ws'')"
    by (simp add: getRootPath_def runPnpmCommand_def w_moved_def pnpm_start_def settle_def trim_def
        js_white_def)
  have r1: "relativeOf ''/ws/node_modules'' ''/ws/node_modules/a.js'' = ''a.js''"
    and r2: "relativeOf ''/ws'' ''/ws/node_modules/a.js'' = ''node_modules/a.js''"
    by (simp_all add: relativeOf_def substring1_def)
  have h: "fs_access w_fs ''/ws/node_modules/a.js'' \<and> getRootPath w_fs = Some (Inr ''/ws/node_modules'')
     \<and> fs_stat w_fs ''/ws/node_modules/a.js'' = Inr \<lparr>isFile = True, isDirectory = False\<rparr>
     \<and> isFile \<lparr>isFile = True, isDirectory = False\<rparr>
     \<and> fs_access w_moved ''/ws/node_modules/a.js'' \<and> getRootPath w_moved = Some (Inr ''/ws'')
     \<and> fs_stat w_moved ''/ws/node_modules/a.js'' = Inr \<lparr>isFile = True, isDirectory = False\<rparr>
     \<and> isFile \<lparr>isFile = True, isDirectory = False\<rparr>"
    using g1 g2 by (simp add: w_moved_fields) (simp add: w_fs_def)
  obtain s1 s2 where s: "addToArchive w_fs ''/ws/node_modules/a.js'' False io_start = Some (Inr (), s1)"
    "addToArchive w_moved ''/ws/node_modules/a.js'' False s1 = Some (Inr (), s2)"
    "entries s2 = entries io_start @ [(''/ws/node_modules/a.js'', relativeOf ''/ws/node_modules'' ''/ws/node_modules/a.js''),
        (''/ws/node_modules/a.js'', relativeOf ''/ws'' ''/ws/node_modules/a.js'')]"
    using h root_query_per_call [where ?w1.0 = w_fs and ?w2.0 = w_moved
        and ?p1.0 = "''/ws/node_modules/a.js''" and ?p2.0 = "''/ws/node_modules/a.js''"
        and ?root1.0 = "''/ws/node_modules''" and ?root2.0 = "''/ws''"
        and ?st1.0 = "\<lparr>isFile = True, isDirectory = False\<rparr>"
        and ?st2.0 = "\<lparr>isFile = True, isDirectory = False\<rparr>" and v = False and s = io_start]
    by blast
  have c1: "count_list (calls s1) (Spawn [''root'']) = count_list (calls io_start) (Spawn [''root'']) + 1"
    using s(1) h root_query_per_call [where w = w_fs and p = "''/ws/node_modules/a.js''" and v = False
        and s = io_start and r = "Inr ()" and s' = s1]
    by simp
  have c2: "count_list (calls s2) (Spawn [''root'']) = count_list (calls s1) (Spawn [''root'']) + 1"
    using s(2) h root_query_per_call [where w = w_moved and p = "''/ws/node_modules/a.js''" and v = False
        and s = s1 and r = "Inr ()" and s' = s2]
    by simp
  show ?thesis using s c1 c2 r1 r2 by (auto simp add: io_start_def)
qed

section \<open>The pump\<close>

lemma within_bounds_le:
  "within_bounds c n k \<Longrightarrow> n' \<le> n \<Longrightarrow> within_bounds c n' k"
  by (auto simp add: within_bounds_def intro: le_trans)

lemma within_bounds_dispatch:
  assumes "within_bounds c n k" and "\<not> size_ge n c"
  shows "within_bounds c (Suc n) (max k (Suc n))"
  unfolding within_bounds_def
proof (intro allI impI)
  fix B
  assume a: "admits c B"
  then have "n < B" using assms(2) by (simp add: admits_def)
  moreover have "k \<le> B" using assms(1) a by (simp add: within_bounds_def)
  ultimately show "Suc n \<le> B \<and> max k (Suc n) \<le> B" by simp
qed

lemma within_bounds_redispatch:
  assumes "within_bounds c n k" and "n' < n"
  shows "within_bounds c (Suc n') (max k (Suc n'))"
  unfolding within_bounds_def
proof (intro allI impI)
  fix B
  assume a: "admits c B"
  then have "n \<le> B" "k \<le> B" using assms(1) by (simp_all add: within_bounds_def)
  then show "Suc n' \<le> B \<and> max k (Suc n') \<le> B" using assms(2) by simp
qed

lemma within_bounds_zero: "within_bounds c 0 0"
  by (simp add: within_bounds_def)

lemma finalize_inv:
  "loop_pre c [] s \<Longrightarrow> runningPromises s = [] \<Longrightarrow> pending s = [] \<Longrightarrow> job_inv c (finalize s)"
  by (cases "archivePromise s")
     (auto simp add: loop_pre_def job_inv_def finalize_def split: sum.splits)

lemma after_loop_inv:
  "loop_pre c [] s \<Longrightarrow> pending s = [] \<Longrightarrow> job_inv c (after_loop s)"
proof (cases "runningPromises s = []")
  case True
  assume "loop_pre c [] s" "pending s = []"
  then show ?thesis using True by (simp add: after_loop_def finalize_inv)
next
  case False
  assume "loop_pre c [] s" "pending s = []"
  then show ?thesis using False
    by (simp add: after_loop_def loop_pre_def job_inv_def)
qed

lemma dispatch_pre:
  assumes "loop_pre c (p # ps) s"
    and "within_bounds c (Suc (length (runningPromises s))) (max (peak s) (Suc (length (runningPromises s))))"
  shows "loop_pre c ps (dispatch p s)"
  using assms by (simp add: loop_pre_def dispatch_fields)

lemma for_of_inv: "loop_pre c ps s \<Longrightarrow> job_inv c (for_of c ps s)"
proof (induction ps arbitrary: s)
  case Nil
  have "loop_pre c [] (s\<lparr>pending := []\<rparr>)" using Nil by (simp add: loop_pre_def)
  then show ?case by (simp add: after_loop_inv)
next
  case (Cons p ps)
  show ?case
  proof (cases "size_ge (length (runningPromises s)) c")
    case True
    have "length (runningPromises s) < length (allPaths s)"
      using Cons.prems by (simp add: loop_pre_def)
    then have "\<exists>n < length (allPaths s). size_ge n c" using True by blast
    then show ?thesis using Cons.prems True
      by (simp add: loop_pre_def job_inv_def)
  next
    case False
    have "within_bounds c (Suc (length (runningPromises s)))
        (max (peak s) (Suc (length (runningPromises s))))"
      using Cons.prems False by (intro within_bounds_dispatch) (simp_all add: loop_pre_def)
    then have "loop_pre c ps (dispatch p s)" using Cons.prems by (intro dispatch_pre)
    then show ?thesis using False Cons.IH by simp
  qed
qed


lemma filter_running_less:
  "map_of rs i = Some p \<Longrightarrow> length (filter (\<lambda>q. fst q \<noteq> i) rs) < length rs"
proof -
  assume "map_of rs i = Some p"
  then have "(i, p) \<in> set rs" by (rule map_of_SomeD)
  then show ?thesis by (intro length_filter_less [of "(i, p)"]) simp_all
qed

lemma resume_inv:
  assumes "job_inv c s" and "pc s = Racing" and "map_of (runningPromises s) i = Some p"
  shows "job_inv c (resume c (s\<lparr>io := x, runningPromises := filter (\<lambda>q. fst q \<noteq> i) (runningPromises s)\<rparr>))"
proof -
  let ?s = "s\<lparr>io := x, runningPromises := filter (\<lambda>q. fst q \<noteq> i) (runningPromises s)\<rparr>"
  obtain q rest where pend: "pending s = q # rest"
    using assms(1,2) by (cases "pending s") (simp_all add: job_inv_def)
  have less: "length (runningPromises ?s) < length (runningPromises s)"
    using filter_running_less [OF assms(3)] by simp
  have wb: "within_bounds c (length (runningPromises s)) (peak s)"
    using assms(1) by (simp add: job_inv_def)
  have wb': "within_bounds c (length (runningPromises ?s)) (peak ?s)"
    using within_bounds_le [OF wb, of "length (runningPromises ?s)"] less by simp
  have pre: "loop_pre c (q # rest) ?s"
    using assms(1,2) pend less wb' by (simp add: job_inv_def loop_pre_def)
  have "within_bounds c (Suc (length (runningPromises ?s)))
      (max (peak ?s) (Suc (length (runningPromises ?s))))"
    using within_bounds_redispatch [OF wb less] by simp
  then have "loop_pre c rest (dispatch q ?s)" using pre by (intro dispatch_pre)
  then have "job_inv c (for_of c rest (dispatch q ?s))" by (rule for_of_inv)
  then show ?thesis using pend by (simp add: resume_def)
qed

lemma on_settled_inv:
  assumes "job_inv c s" and "concurrency cfg = c"
  shows "job_inv c (on_settled cfg i w s)"
proof (cases "map_of (runningPromises s) i")
  case None
  then show ?thesis using assms by (simp add: on_settled_def)
next
  case (Some p)
  show ?thesis
  proof (cases "guarded_add w p (verbose cfg) (io s)")
    case None
    then show ?thesis using assms Some by (simp add: on_settled_def)
  next
    case (Some x)
    let ?s = "s\<lparr>io := x, runningPromises := filter (\<lambda>q. fst q \<noteq> i) (runningPromises s)\<rparr>"
    have less: "length (runningPromises ?s) < length (runningPromises s)"
      using filter_running_less [OF \<open>map_of (runningPromises s) i = Some p\<close>] by simp
    have running: "runningPromises s \<noteq> []" using less by auto
    have nf: "\<not> finalized s" using running assms(1) by (auto simp add: job_inv_def)
    have wb: "within_bounds c (length (runningPromises s)) (peak s)"
      using assms(1) by (simp add: job_inv_def)
    have wb': "within_bounds c (length (runningPromises ?s)) (peak ?s)"
      using within_bounds_le [OF wb, of "length (runningPromises ?s)"] less by simp
    consider (racing) "pc s = Racing" | (last) "pc s = Draining" "runningPromises ?s = []"
      | (draining) "pc s = Draining" "runningPromises ?s \<noteq> []" | (listing) "pc s = Listing"
      using nf assms(1) by (cases "pc s") (auto simp add: job_inv_def)
    then show ?thesis
    proof cases
      case racing
      then show ?thesis
        using resume_inv [OF assms(1) racing \<open>map_of (runningPromises s) i = Some p\<close>, of x]
          Some \<open>map_of (runningPromises s) i = Some p\<close> assms(2)
        by (simp add: on_settled_def Let_def)
    next
      case last
      have "loop_pre c [] ?s" using assms(1) last nf wb' by (auto simp add: job_inv_def loop_pre_def)
      moreover have "pending ?s = []" using assms(1) last by (simp add: job_inv_def)
      ultimately have "job_inv c (finalize ?s)" using last(2) by (intro finalize_inv)
      then show ?thesis
        using last Some \<open>map_of (runningPromises s) i = Some p\<close>
        by (simp add: on_settled_def Let_def)
    next
      case draining
      have "job_inv c ?s" using assms(1) draining less nf wb' by (auto simp add: job_inv_def)
      then show ?thesis
        using draining Some \<open>map_of (runningPromises s) i = Some p\<close>
        by (simp add: on_settled_def Let_def)
    next
      case listing
      then show ?thesis using assms(1) running by (simp add: job_inv_def)
    qed
  qed
qed

lemma on_archive_inv: "job_inv c s \<Longrightarrow> job_inv c (on_archive v s)"
  by (cases "archivePromise s"; cases v; cases "pc s")
     (auto simp add: on_archive_def Let_def job_inv_def)

lemma fold_push_line_inv: "pc s = Listing \<Longrightarrow> job_inv c s \<Longrightarrow> job_inv c (fold push_line ls s)"
  by (auto simp add: fold_push_line job_inv_def)

lemma listing_pre:
  assumes "job_inv c s" and "pc s = Listing"
  shows "loop_pre c (allPaths s) s"
proof -
  have wb: "within_bounds c (length (runningPromises s)) (peak s)"
    using assms(1) unfolding job_inv_def by blast
  have rest: "length (runningPromises s) \<le> dispatched s
      \<and> dispatched s + length (allPaths s) = length (allPaths s)
      \<and> (0 < suspensions s \<longrightarrow> (\<exists>n < length (allPaths s). size_ge n c))
      \<and> \<not> finalized s"
    using assms by (auto simp add: job_inv_def)
  show ?thesis unfolding loop_pre_def using wb rest by blast
qed

lemma step_inv:
  assumes "job_inv c s" and "concurrency cfg = c"
  shows "job_inv c (step cfg e s)"
proof (cases e)
  case (Child ce)
  show ?thesis
  proof (cases ce)
    case (Stdout chunk)
    then show ?thesis using Child assms by (simp add: on_data_def fold_push_line_inv)
  next
    case StdoutEnd
    then show ?thesis using Child assms by (simp add: for_of_inv listing_pre)
  qed (use Child assms in simp_all)
next
  case (Settled i w)
  then show ?thesis using assms by (simp add: on_settled_inv)
next
  case OutputClose
  then show ?thesis using assms by (simp add: on_archive_inv)
next
  case (ArchiveError m)
  then show ?thesis using assms by (simp add: on_archive_inv)
next
  case (ArchiveWarn m)
  then show ?thesis using assms by (simp add: job_inv_def)
qed

lemma fold_step_inv:
  "job_inv c s \<Longrightarrow> concurrency cfg = c \<Longrightarrow> job_inv c (fold (step cfg) evs s)"
  by (induction evs arbitrary: s) (simp_all add: step_inv)

lemma createArchive_inv: "job_inv c (createArchive cfg)"
  by (simp add: job_inv_def within_bounds_zero createArchive_def)

lemma run_inv: "job_inv (concurrency cfg) (run cfg evs)"
  by (simp add: run_def fold_step_inv createArchive_inv)

lemma admits_finite: "admits (Finite q) (nat \<lceil>q\<rceil>)"
proof (unfold admits_def, intro allI impI)
  fix n
  assume "\<not> size_ge n (Finite q)"
  then have "of_nat n < q" by (simp add: size_ge_def)
  then have "of_int (int n) < q" by simp
  then have "int n < \<lceil>q\<rceil>" by (simp only: less_ceiling_iff)
  then show "n < nat \<lceil>q\<rceil>" by simp
qed







text \<open>The run of \<open>listing_ex\<close> under \<open>cfg_ex\<close>, evaluated.\<close>

text \<open>The run of \<open>listing_ex\<close> under \<open>cfg_ex\<close>, evaluated.\<close>

lemmas run_eval = run_def createArchive_def listing_ex_def on_data_def split_nl_def push_line_def
  trim_def js_white_def size_ge_def dispatch_def after_loop_def finalize_def

lemma listing_ex_run:
  "run cfg_ex listing_ex =
     \<lparr>returned = True, firstLine = False,
      allPaths = [''/ws/node_modules/a.js'', ''/ws/node_modules/locked'',
                  ''/ws/node_modules/gone'', ''/ws/node_modules/b.js''],
      pc = Racing, pending = [''/ws/node_modules/gone'', ''/ws/node_modules/b.js''],
      runningPromises = [(0, ''/ws/node_modules/a.js''), (1, ''/ws/node_modules/locked'')],
      dispatched = 2, io = io_start, finalized = False, archivePromise = None,
      peak = 2, suspensions = 1\<rparr>"
  by (simp add: run_eval cfg_ex_def io_start_def)







lemma frac_run:
  "runningPromises (run cfg_frac listing_ex)
     = [(0, ''/ws/node_modules/a.js''), (1, ''/ws/node_modules/locked''),
        (2, ''/ws/node_modules/gone'')]
   \<and> peak (run cfg_frac listing_ex) = 3
   \<and> pending (run cfg_frac listing_ex) = [''/ws/node_modules/b.js'']
   \<and> pc (run cfg_frac listing_ex) = Racing"
  by (simp add: run_eval cfg_frac_def cfg_ex_def)

text \<open>
  C1, as stated, fails: the ceiling is a number, not an integer, and the loop dispatches
  whenever the size is below it. With the ceiling 2.5 the loop dispatches at sizes 0, 1 and
  2 and waits at 3: three calls are in flight, more than the ceiling.
\<close>

theorem in_flight_bounded_counterexample:
  "concurrency cfg_frac = Finite (5 / 2)
   \<and> (1 :: rat) \<le> 5 / 2
   \<and> length (runningPromises (run cfg_frac listing_ex)) = 3
   \<and> peak (run cfg_frac listing_ex) = 3
   \<and> (5 / 2 :: rat) < of_nat (length (runningPromises (run cfg_frac listing_ex)))"
  by (simp add: frac_run) (simp add: cfg_frac_def)

text \<open>
  C1, as amended. For a finite ceiling \<open>q\<close> of at least 1 and any events whatever - any
  listing, any order of settlements - the size of \<open>runningPromises\<close> is at most \<open>q\<close>
  rounded up, and so is the largest size it has had at any dispatch of the run (\<open>peak\<close>);
  for an integer ceiling both are at most the ceiling itself. When the ceiling is at least
  the number of paths, the loop has never waited at the ceiling and is not waiting. With a
  ceiling of 1 at most one call is in flight at any time: the calls are serialized.
\<close>

theorem in_flight_bounded:
  assumes "concurrency cfg = Finite q" and "1 \<le> q"
  shows "int (length (runningPromises (run cfg evs))) \<le> \<lceil>q\<rceil>
     \<and> int (peak (run cfg evs)) \<le> \<lceil>q\<rceil>
     \<and> (q \<in> \<int> \<longrightarrow>
          of_nat (length (runningPromises (run cfg evs))) \<le> q \<and> of_nat (peak (run cfg evs)) \<le> q)
     \<and> (of_nat (length (allPaths (run cfg evs))) \<le> q \<longrightarrow>
          suspensions (run cfg evs) = 0 \<and> pc (run cfg evs) \<noteq> Racing)
     \<and> (q = 1 \<longrightarrow>
          length (runningPromises (run cfg evs)) \<le> 1 \<and> peak (run cfg evs) \<le> 1)"
proof -
  let ?s = "run cfg evs"
  have inv: "job_inv (Finite q) ?s" using run_inv [of cfg evs] assms(1) by simp
  have wb: "within_bounds (Finite q) (length (runningPromises ?s)) (peak ?s)"
    using inv unfolding job_inv_def by blast
  have pos: "0 \<le> \<lceil>q\<rceil>" using assms(2) by (simp add: le_ceiling_iff)
  have nb: "length (runningPromises ?s) \<le> nat \<lceil>q\<rceil>" "peak ?s \<le> nat \<lceil>q\<rceil>"
    using wb admits_finite [of q] by (simp_all add: within_bounds_def)
  have cq: "int (nat \<lceil>q\<rceil>) = \<lceil>q\<rceil>" using pos by (rule nat_0_le)
  have a: "int (length (runningPromises ?s)) \<le> \<lceil>q\<rceil>"
    and b: "int (peak ?s) \<le> \<lceil>q\<rceil>"
    using nb cq by linarith+
  have c: "q \<in> \<int> \<longrightarrow> of_nat (length (runningPromises ?s)) \<le> q \<and> of_nat (peak ?s) \<le> q"
  proof
    assume "q \<in> \<int>"
    then have q: "of_int \<lceil>q\<rceil> = q" by (auto elim: Ints_cases)
    have "(of_int (int (length (runningPromises ?s))) :: rat) \<le> of_int \<lceil>q\<rceil>"
      and "(of_int (int (peak ?s)) :: rat) \<le> of_int \<lceil>q\<rceil>"
      using a b by (simp_all only: of_int_le_iff)
    then show "of_nat (length (runningPromises ?s)) \<le> q \<and> of_nat (peak ?s) \<le> q"
      using q by simp
  qed
  have d: "of_nat (length (allPaths ?s)) \<le> q \<longrightarrow> suspensions ?s = 0 \<and> pc ?s \<noteq> Racing"
  proof
    assume n: "of_nat (length (allPaths ?s)) \<le> q"
    have none: "\<not> (\<exists>k < length (allPaths ?s). size_ge k (Finite q))"
    proof
      assume "\<exists>k < length (allPaths ?s). size_ge k (Finite q)"
      then obtain k where k: "k < length (allPaths ?s)" "q \<le> of_nat k"
        by (auto simp add: size_ge_def)
      have "(of_nat k :: rat) < of_nat (length (allPaths ?s))" using k(1) by simp
      then show False using k(2) n by simp
    qed
    have s0: "suspensions ?s = 0"
    proof (rule ccontr)
      assume "suspensions ?s \<noteq> 0"
      then have "0 < suspensions ?s" by simp
      then have "\<exists>k < length (allPaths ?s). size_ge k (Finite q)"
        using inv unfolding job_inv_def by blast
      then show False using none by simp
    qed
    have nr: "pc ?s \<noteq> Racing"
    proof
      assume r: "pc ?s = Racing"
      then have "pending ?s \<noteq> []" and g: "size_ge (length (runningPromises ?s)) (Finite q)"
        and "length (runningPromises ?s) \<le> dispatched ?s"
        and "dispatched ?s + length (pending ?s) = length (allPaths ?s)"
        using inv by (simp_all add: job_inv_def)
      then have "length (runningPromises ?s) < length (allPaths ?s)"
        by (cases "pending ?s") auto
      then show False using g none by blast
    qed
    from s0 nr show "suspensions ?s = 0 \<and> pc ?s \<noteq> Racing" by simp
  qed
  have e: "q = 1 \<longrightarrow> length (runningPromises ?s) \<le> 1 \<and> peak ?s \<le> 1"
    using nb by auto
  from a b c d e show ?thesis by blast
qed

theorem in_flight_bounded_witness:
  "concurrency cfg_ex = Finite 2
   \<and> (1 :: rat) \<le> 2
   \<and> length (runningPromises (run cfg_ex listing_ex)) = 2
   \<and> int (peak (run cfg_ex listing_ex)) \<le> 2
   \<and> suspensions (run cfg_wide listing_ex) = 0
   \<and> pc (run cfg_wide listing_ex) \<noteq> Racing
   \<and> peak (run cfg_serial listing_ex) \<le> 1
   \<and> int (peak (run cfg_frac listing_ex)) \<le> 3"
proof -
  have c: "concurrency cfg_ex = Finite 2" "concurrency cfg_wide = Finite 4"
    "concurrency cfg_serial = Finite 1" "concurrency cfg_frac = Finite (5 / 2)"
    by (simp_all add: cfg_ex_def cfg_wide_def cfg_serial_def cfg_frac_def)
  have h: "(1 :: rat) \<le> 2" "(1 :: rat) \<le> 4" "(1 :: rat) \<le> 1" "(1 :: rat) \<le> 5 / 2"
    by simp_all
  have n: "length (allPaths (run cfg_wide listing_ex)) = 4"
    by (simp add: run_eval cfg_wide_def cfg_ex_def)
  have f: "\<lceil>5 / 2 :: rat\<rceil> = 3" by (simp add: ceiling_unique)
  show ?thesis
    using c(1) h(1) n f listing_ex_run
      in_flight_bounded [OF c(1) h(1), of listing_ex]
      in_flight_bounded [OF c(2) h(2), of listing_ex]
      in_flight_bounded [OF c(3) h(3), of listing_ex]
      in_flight_bounded [OF c(4) h(4), of listing_ex]
    by simp
qed



text \<open>
  C2, at \<open>cfg_ex\<close> and \<open>listing_ex\<close>: the promise of \<open>createArchive\<close> is resolved when
  the function returns, before the listing is read, and it is resolved while two calls are
  in flight, two paths wait to be dispatched, \<open>finalize\<close> has not been called and the
  output stream has not closed. The waiting the claim describes is done by the \<open>end\<close>
  handler, whose promise nobody holds.
\<close>

theorem createArchive_resolves_early:
  "returned (createArchive cfg_ex)
   \<and> pc (createArchive cfg_ex) = Listing
   \<and> dispatched (createArchive cfg_ex) = 0
   \<and> \<not> finalized (createArchive cfg_ex)
   \<and> archivePromise (createArchive cfg_ex) = None
   \<and> returned (run cfg_ex listing_ex)
   \<and> runningPromises (run cfg_ex listing_ex)
       = [(0, ''/ws/node_modules/a.js''), (1, ''/ws/node_modules/locked'')]
   \<and> pending (run cfg_ex listing_ex) = [''/ws/node_modules/gone'', ''/ws/node_modules/b.js'']
   \<and> \<not> finalized (run cfg_ex listing_ex)
   \<and> archivePromise (run cfg_ex listing_ex) = None"
  by (simp add: listing_ex_run) (simp add: createArchive_def)

text \<open>The \<open>end\<close> handler itself ends only after all of it.\<close>

lemma end_handler_finishes_last:
  assumes "pc (run cfg evs) = Finished"
  shows "dispatched (run cfg evs) = length (allPaths (run cfg evs))
     \<and> runningPromises (run cfg evs) = []
     \<and> finalized (run cfg evs)
     \<and> archivePromise (run cfg evs) = Some (Inr ())"
  using run_inv [of cfg evs] assms by (auto simp add: job_inv_def)

end
